theory Spec2Isabelle
  imports Main "HOL-Library.Word"
begin

unbundle bit_operations_syntax

section \<open>Data model\<close>

text \<open>
  A PostgreSQL \<open>text\<close> value is modelled as a \<open>string\<close> of bytes (its UTF-8 encoding):
  every byte of a code point beyond ASCII lies outside \<open>[a-zA-Z0-9]\<close>, so a run of such
  code points is a run of such bytes. A \<open>uuid\<close> is a 128-bit word. A nullable column is
  an \<open>option\<close>, \<open>None\<close> being SQL \<open>NULL\<close>.
\<close>

type_synonym uuid = "128 word"

text \<open>
  A row of \<open>business_cards\<close>, with the columns the application writes
  (\<open>handleSave\<close> in \<open>src/components/AdminPanel.tsx\<close>) and reads. The primary key
  \<open>id\<close> is called \<open>row_id\<close> here.
\<close>

record business_card =
  row_id :: uuid
  user_id :: "uuid option"
  slug :: "string option"
  title :: "string option"
  company :: "string option"
  position :: "string option"
  phone :: "string option"
  email :: "string option"
  website :: "string option"
  avatar_url :: "string option"
  bio :: "string option"
  whatsapp :: "string option"
  address :: "string option"
  map_link :: "string option"
  theme :: "string option"
  shape :: "string option"
  layout :: "string option"
  is_published :: "bool option"
  view_count :: "int option"

section \<open>Text primitives of the migration\<close>

text \<open>The character class \<open>[a-zA-Z0-9]\<close> of the pattern in \<open>generate_unique_slug\<close>.\<close>

definition is_alnum :: "char \<Rightarrow> bool" where
  "is_alnum c \<longleftrightarrow>
     (let n = (of_char c :: nat)
      in (97 \<le> n \<and> n \<le> 122) \<or> (65 \<le> n \<and> n \<le> 90) \<or> (48 \<le> n \<and> n \<le> 57))"

text \<open>
  \<open>regexp_replace(input_text, '[^a-zA-Z0-9]+', '-', 'g')\<close>: every maximal run of
  characters outside the class becomes one hyphen (the quantifier is greedy, the flag
  \<open>g\<close> replaces every match).
\<close>

function regexp_replace :: "string \<Rightarrow> string" where
  "regexp_replace [] = []"
| "regexp_replace (c # cs) =
     (if is_alnum c then c # regexp_replace cs
      else CHR ''-'' # regexp_replace (dropWhile (\<lambda>d. \<not> is_alnum d) cs))"
  by pat_completeness auto
termination
  by (relation "measure length") (auto simp: length_dropWhile_le less_Suc_eq_le)

text \<open>
  \<open>lower\<close>: after the replacement only ASCII letters, digits and hyphens are left, so
  only \<open>A\<close> to \<open>Z\<close> are affected.
\<close>

definition lower_char :: "char \<Rightarrow> char" where
  "lower_char c =
     (let n = (of_char c :: nat) in if 65 \<le> n \<and> n \<le> 90 then char_of (n + 32) else c)"

definition lower :: "string \<Rightarrow> string" where
  "lower s = map lower_char s"

text \<open>\<open>trim(both '-' from base_slug)\<close>.\<close>

definition trim_both :: "char \<Rightarrow> string \<Rightarrow> string" where
  "trim_both x s = rev (dropWhile (\<lambda>c. c = x) (rev (dropWhile (\<lambda>c. c = x) s)))"

text \<open>Lines 40 and 41 of the migration together.\<close>

definition normalise :: "string \<Rightarrow> string" where
  "normalise input_text = trim_both CHR ''-'' (lower (regexp_replace input_text))"

text \<open>The decimal text of an \<open>integer\<close>, as \<open>||\<close> renders it.\<close>

definition digit_char :: "nat \<Rightarrow> char" where
  "digit_char d = char_of (48 + d)"

fun nat_text :: "nat \<Rightarrow> string" where
  "nat_text n = (if n < 10 then [digit_char n] else nat_text (n div 10) @ [digit_char (n mod 10)])"

definition int_text :: "int \<Rightarrow> string" where
  "int_text i = (if i < 0 then CHR ''-'' # nat_text (nat (- i)) else nat_text (nat i))"

text \<open>
  \<open>uuid::text\<close>: 32 lower-case hexadecimal digits, most significant first, in groups of
  8, 4, 4, 4 and 12 separated by hyphens.
\<close>

definition hex_digit :: "nat \<Rightarrow> char" where
  "hex_digit d = (if d < 10 then char_of (48 + d) else char_of (87 + d))"

definition uuid_hex :: "uuid \<Rightarrow> string" where
  "uuid_hex u = map (\<lambda>i. hex_digit (unat (drop_bit (4 * (31 - i)) u AND 15))) [0..<32]"

definition uuid_text :: "uuid \<Rightarrow> string" where
  "uuid_text u =
     (let h = uuid_hex u
      in take 8 h @ ''-'' @ take 4 (drop 8 h) @ ''-'' @ take 4 (drop 12 h) @ ''-''
         @ take 4 (drop 16 h) @ ''-'' @ drop 20 h)"

text \<open>\<open>substr(string, start, count)\<close> for the positions \<open>start \<ge> 1\<close> the migration uses.\<close>

definition substr :: "string \<Rightarrow> nat \<Rightarrow> nat \<Rightarrow> string" where
  "substr s start count = take count (drop (start - 1) s)"

section \<open>The slug generator\<close>

datatype pg_error = integer_out_of_range

text \<open>
  The condition of the \<open>WHILE EXISTS\<close> loop, over a snapshot of \<open>business_cards\<close>. A
  comparison with \<open>NULL\<close> is not true, so a row whose \<open>slug\<close> or \<open>user_id\<close> is
  \<open>NULL\<close> is selected only as far as SQL selects it.
\<close>

definition slug_exists :: "'a business_card_scheme list \<Rightarrow> string \<Rightarrow> uuid option \<Rightarrow> bool" where
  "slug_exists snapshot final_slug user_id_param \<longleftrightarrow>
     list_ex (\<lambda>r. slug r = Some final_slug \<and>
                 (case user_id_param of
                    None \<Rightarrow> True
                  | Some p \<Rightarrow> (case user_id r of None \<Rightarrow> False | Some u \<Rightarrow> u \<noteq> p)))
       snapshot"

text \<open>
  The loop of lines 52 to 59. \<open>counter\<close> is a PL/pgSQL \<open>integer\<close> (32 bits, signed):
  \<open>counter + 1\<close> beyond 2147483647 raises \<open>integer out of range\<close>.
\<close>

function slug_loop ::
  "'a business_card_scheme list \<Rightarrow> uuid option \<Rightarrow> string \<Rightarrow> int \<Rightarrow> string \<Rightarrow> pg_error + string"
where
  "slug_loop snapshot user_id_param base_slug counter final_slug =
     (if slug_exists snapshot final_slug user_id_param then
        (if counter + 1 > 2147483647 then Inl integer_out_of_range
         else slug_loop snapshot user_id_param base_slug (counter + 1)
                (base_slug @ ''-'' @ int_text (counter + 1)))
      else Inr final_slug)"
  by pat_completeness auto
termination
  by (relation "measure (\<lambda>(cs, p, b, counter, f). nat (2147483647 - counter))") auto

declare slug_loop.simps [simp del]

text \<open>
  \<open>generate_unique_slug(input_text, table_name, user_id_param)\<close>. The value that
  \<open>gen_random_uuid()\<close> would return is the parameter \<open>rnd\<close>; \<open>table_name\<close> is not
  used by the body, which always reads \<open>business_cards\<close>.
\<close>

definition generate_unique_slug ::
  "uuid \<Rightarrow> 'a business_card_scheme list \<Rightarrow> string \<Rightarrow> string \<Rightarrow> uuid option \<Rightarrow> pg_error + string"
where
  "generate_unique_slug rnd snapshot input_text table_name user_id_param =
     (let base_slug = lower (regexp_replace input_text);
          base_slug = trim_both CHR ''-'' base_slug;
          base_slug = (if base_slug = [] then ''card-'' @ substr (uuid_text rnd) 1 8
                       else base_slug)
      in slug_loop snapshot user_id_param base_slug 0 base_slug)"

section \<open>The slug assignment trigger\<close>

datatype tg_op = INSERT | UPDATE

text \<open>\<open>COALESCE(NEW.title, 'card')\<close>.\<close>

definition COALESCE :: "'a option \<Rightarrow> 'a \<Rightarrow> 'a" where
  "COALESCE x d = (case x of None \<Rightarrow> d | Some v \<Rightarrow> v)"

text \<open>
  \<open>NEW.slug := generate_unique_slug(...)\<close>: an error raised by the generator aborts
  the write, otherwise the result is assigned to the slug of \<open>NEW\<close>.
\<close>

definition assign_slug ::
  "'a business_card_scheme \<Rightarrow> pg_error + string \<Rightarrow> pg_error + 'a business_card_scheme"
where
  "assign_slug NEW r = (case r of Inl e \<Rightarrow> Inl e | Inr s \<Rightarrow> Inr (NEW\<lparr>slug := Some s\<rparr>))"

text \<open>
  \<open>set_card_slug()\<close>, the \<open>BEFORE INSERT OR UPDATE\<close> row trigger, as a function of the
  operation, the row pair \<open>OLD\<close>, \<open>NEW\<close> (\<open>OLD\<close> is read on \<open>UPDATE\<close> only) and the
  snapshot of the table; it returns the row that is written. \<open>OLD.slug != NEW.slug\<close>
  is not true when \<open>OLD.slug\<close> is \<open>NULL\<close>.
\<close>

definition set_card_slug ::
  "uuid \<Rightarrow> 'a business_card_scheme list \<Rightarrow> tg_op \<Rightarrow> 'a business_card_scheme
     \<Rightarrow> 'a business_card_scheme \<Rightarrow> pg_error + 'a business_card_scheme"
where
  "set_card_slug rnd snapshot TG_OP OLD NEW =
     (let from_title = assign_slug NEW
            (generate_unique_slug rnd snapshot (COALESCE (title NEW) ''card'')
               ''business_cards'' (user_id NEW))
      in case slug NEW of
           None \<Rightarrow> from_title
         | Some new_slug \<Rightarrow>
             if new_slug = [] then from_title
             else if TG_OP = UPDATE then
               (if (case slug OLD of None \<Rightarrow> False | Some old_slug \<Rightarrow> old_slug \<noteq> new_slug)
                then assign_slug NEW
                       (generate_unique_slug rnd snapshot new_slug ''business_cards'' (user_id NEW))
                else Inr NEW)
             else assign_slug NEW
                    (generate_unique_slug rnd snapshot new_slug ''business_cards'' (user_id NEW)))"

section \<open>Writes through the trigger\<close>

text \<open>
  The states of \<open>business_cards\<close> that writes produce from the empty table. Every insert
  and update passes through \<open>set_card_slug\<close>, which sees the table as it is before the
  write; a write that raises leaves the table as it was. The uniqueness constraints are
  not applied, so every table the database can hold is among these states.
\<close>

datatype 'a write_op =
  Insert_row uuid "'a business_card_scheme"
| Update_row nat uuid "'a business_card_scheme"
| Delete_row nat

fun perform :: "'a business_card_scheme list \<Rightarrow> 'a write_op \<Rightarrow> 'a business_card_scheme list" where
  "perform table (Insert_row rnd NEW) =
     (case set_card_slug rnd table INSERT NEW NEW of
        Inl e \<Rightarrow> table
      | Inr written \<Rightarrow> table @ [written])"
| "perform table (Update_row i rnd NEW) =
     (if i < length table then
        (case set_card_slug rnd table UPDATE (table ! i) NEW of
           Inl e \<Rightarrow> table
         | Inr written \<Rightarrow> table[i := written])
      else table)"
| "perform table (Delete_row i) = take i table @ drop (Suc i) table"

definition run_writes :: "'a write_op list \<Rightarrow> 'a business_card_scheme list" where
  "run_writes ws = foldl perform [] ws"

section \<open>The public card page (\<open>PublicCard\<close>, \<open>src/unnamed/part_001\<close>)\<close>

text \<open>
  The tables the page reads and writes, with the columns its queries name. Timestamps and
  orders are integers; the database is a record of row lists.
\<close>

record social_link =
  sl_card_id :: uuid
  sl_is_active :: bool
  sl_display_order :: int

record media_item =
  mi_card_id :: uuid
  mi_type :: string
  mi_is_active :: bool
  mi_display_order :: int

record review_link =
  rl_card_id :: uuid
  rl_is_active :: bool
  rl_created_at :: int

record card_view =
  cv_card_id :: "uuid option"
  visitor_ip :: "string option"
  user_agent :: string
  referrer :: "string option"
  device_type :: string

record database =
  business_cards :: "business_card list"
  social_links :: "social_link list"
  media_items :: "media_item list"
  review_links :: "review_link list"
  card_views :: "card_view list"

text \<open>
  \<open>.single()\<close> of the query client: the rows must be exactly one, otherwise the result
  carries an error and no data.
\<close>

datatype postgrest_error = PGRST116

definition single :: "'a list \<Rightarrow> postgrest_error + 'a" where
  "single rows = (case rows of [r] \<Rightarrow> Inr r | _ \<Rightarrow> Inl PGRST116)"

text \<open>
  The component state that \<open>loadCardData\<close> sets; the property \<open>card\<close> of
  \<open>CardData\<close> is called \<open>card_field\<close> here.
\<close>

record card_data =
  card_field :: business_card
  socialLinks :: "social_link list"
  mediaItems :: "media_item list"
  reviews :: "review_link list"

record page_state =
  cardData :: "card_data option"
  loading :: bool
  error :: "string option"

text \<open>
  \<open>loadCardData\<close>. \<open>cardId\<close> is the route parameter (\<open>None\<close> is \<open>undefined\<close>; the
  empty string is falsy as well). A failed card query throws inside \<open>try\<close>, the
  \<open>catch\<close> stores the message and \<open>finally\<close> clears \<open>loading\<close>.
\<close>

definition loadCardData :: "database \<Rightarrow> string option \<Rightarrow> page_state \<Rightarrow> page_state" where
  "loadCardData db cardId st =
     (case cardId of
        None \<Rightarrow> st
      | Some cid \<Rightarrow>
          if cid = [] then st
          else
            (case single (filter (\<lambda>r. slug r = Some cid \<and> is_published r = Some True)
                            (business_cards db)) of
               Inl cardError \<Rightarrow>
                 st\<lparr>loading := False, error := Some ''Card not found or not published''\<rparr>
             | Inr c \<Rightarrow>
                 st\<lparr>cardData := Some
                      \<lparr>card_field = c,
                       socialLinks = sort_key sl_display_order
                         (filter (\<lambda>l. sl_card_id l = row_id c \<and> sl_is_active l) (social_links db)),
                       mediaItems = sort_key mi_display_order
                         (filter (\<lambda>m. mi_card_id m = row_id c \<and> mi_type m = ''video''
                                        \<and> mi_is_active m) (media_items db)),
                       reviews = rev (sort_key rl_created_at
                         (filter (\<lambda>v. rl_card_id v = row_id c \<and> rl_is_active v)
                            (review_links db)))\<rparr>,
                    loading := False\<rparr>))"

text \<open>
  The object that \<open>.select(columns)\<close> returns for a row has the selected columns as
  properties; reading another property gives \<open>undefined\<close> (\<open>None\<close>, which also stands
  for \<open>null\<close>). \<open>trackCardView\<close> reads \<open>id\<close> and \<open>view_count\<close> from it.
\<close>

record selected_card =
  sel_id :: "uuid option"
  sel_view_count :: "int option"

definition select_columns :: "string list \<Rightarrow> business_card \<Rightarrow> selected_card" where
  "select_columns columns r =
     \<lparr>sel_id = (if ''id'' \<in> set columns then Some (row_id r) else None),
      sel_view_count = (if ''view_count'' \<in> set columns then view_count r else None)\<rparr>"

text \<open>\<open>x || d\<close> on a number that may be undefined: \<open>undefined\<close>, \<open>null\<close> and 0 are falsy.\<close>

definition js_or :: "int option \<Rightarrow> int \<Rightarrow> int" where
  "js_or x d = (case x of None \<Rightarrow> d | Some v \<Rightarrow> if v = 0 then d else v)"

text \<open>\<open>/Mobile|Android|iPhone|iPad/.test(navigator.userAgent)\<close>: a substring search.\<close>

fun has_substring :: "string \<Rightarrow> string \<Rightarrow> bool" where
  "has_substring pat [] = (pat = [])"
| "has_substring pat (c # cs) = (take (length pat) (c # cs) = pat \<or> has_substring pat cs)"

definition device_type_of :: "string \<Rightarrow> string" where
  "device_type_of userAgent =
     (if has_substring ''Mobile'' userAgent \<or> has_substring ''Android'' userAgent
         \<or> has_substring ''iPhone'' userAgent \<or> has_substring ''iPad'' userAgent
      then ''mobile'' else ''desktop'')"

text \<open>
  \<open>trackCardView\<close>, with \<open>navigator.userAgent\<close> and \<open>document.referrer\<close> as
  parameters, on a database that accepts both writes. The update leaves the slug of the
  row as it is, so the slug trigger does not change the row that is written.
\<close>

definition trackCardView :: "database \<Rightarrow> string option \<Rightarrow> string \<Rightarrow> string \<Rightarrow> database" where
  "trackCardView db cardId userAgent document_referrer =
     (case cardId of
        None \<Rightarrow> db
      | Some cid \<Rightarrow>
          if cid = [] then db
          else
            (case single (map (select_columns [''id''])
                    (filter (\<lambda>r. slug r = Some cid \<and> is_published r = Some True)
                       (business_cards db))) of
               Inl e \<Rightarrow> db
             | Inr c \<Rightarrow>
                 db\<lparr>card_views := card_views db @
                      [\<lparr>cv_card_id = sel_id c, visitor_ip = None, user_agent = userAgent,
                        referrer = (if document_referrer = [] then None
                                    else Some document_referrer),
                        device_type = device_type_of userAgent\<rparr>],
                    business_cards :=
                      map (\<lambda>r. if Some (row_id r) = sel_id c
                                then r\<lparr>view_count := Some (js_or (sel_view_count c) 0 + 1)\<rparr>
                                else r)
                        (business_cards db)\<rparr>))"

section \<open>Notions of the specification\<close>

text \<open>The sequence of candidates \<open>base\<close>, \<open>base-1\<close>, \<open>base-2\<close>, ... of the specification.\<close>

definition candidate :: "string \<Rightarrow> int \<Rightarrow> string" where
  "candidate base_slug k = (if k = 0 then base_slug else base_slug @ ''-'' @ int_text k)"

text \<open>The base slug the generator starts from: the normalised input, or the random fallback.\<close>

definition base_slug_of :: "uuid \<Rightarrow> string \<Rightarrow> string" where
  "base_slug_of rnd input_text =
     (if normalise input_text = [] then ''card-'' @ substr (uuid_text rnd) 1 8
      else normalise input_text)"

text \<open>
  A string matches \<open>[a-z0-9-]+\<close> and has no leading and no trailing hyphen.
\<close>

definition is_slug_char :: "char \<Rightarrow> bool" where
  "is_slug_char c \<longleftrightarrow>
     (let n = (of_char c :: nat)
      in (97 \<le> n \<and> n \<le> 122) \<or> (48 \<le> n \<and> n \<le> 57) \<or> c = CHR ''-'')"

definition well_formed_slug :: "string \<Rightarrow> bool" where
  "well_formed_slug s \<longleftrightarrow>
     s \<noteq> [] \<and> list_all is_slug_char s \<and> hd s \<noteq> CHR ''-'' \<and> last s \<noteq> CHR ''-''"

text \<open>The number a decimal text denotes; it inverts \<open>nat_text\<close>.\<close>

definition text_nat :: "string \<Rightarrow> nat" where
  "text_nat s = foldl (\<lambda>a c. 10 * a + (of_char c - 48)) 0 s"

text \<open>
  In the output of \<open>regexp_replace\<close> every character is in \<open>[a-zA-Z0-9]\<close> or is a
  hyphen that ends the string or stands before a character of the class.
\<close>

fun separated :: "string \<Rightarrow> bool" where
  "separated [] = True"
| "separated (c # cs) =
     ((is_alnum c \<or> (c = CHR ''-'' \<and> (cs = [] \<or> is_alnum (hd cs)))) \<and> separated cs)"

section \<open>Example rows\<close>

definition example_card :: "uuid \<Rightarrow> uuid \<Rightarrow> string option \<Rightarrow> string option \<Rightarrow> business_card" where
  "example_card i owner s t =
     \<lparr>row_id = i, user_id = Some owner, slug = s, title = t, company = None, position = None,
      phone = None, email = None, website = None, avatar_url = None, bio = None,
      whatsapp = None, address = None, map_link = None, theme = None, shape = None,
      layout = None, is_published = Some True, view_count = Some 41\<rparr>"

text \<open>
  A table of \<open>2\<^sup>3\<^sup>1\<close> cards of \<open>2\<^sup>3\<^sup>1\<close> users that hold the slugs \<open>base\<close>, \<open>base-1\<close>, ...,
  \<open>base-2147483647\<close>: one card per user, no slug twice.
\<close>

definition colliding_cards :: "string \<Rightarrow> business_card list" where
  "colliding_cards base_slug =
     map (\<lambda>n. example_card (of_nat n) (of_nat n) (Some (candidate base_slug (int n))) None)
       [0..<2147483648]"

text \<open>A database of one published and one unpublished card, and the page before it loads.\<close>

definition example_db :: database where
  "example_db =
     \<lparr>business_cards =
        [example_card 1 1 (Some ''alice'') (Some ''Alice''),
         (example_card 2 2 (Some ''bob'') (Some ''Bob''))\<lparr>is_published := Some False\<rparr>],
      social_links = [], media_items = [], review_links = [], card_views = []\<rparr>"

definition initial_state :: page_state where
  "initial_state = \<lparr>cardData = None, loading = True, error = None\<rparr>"

section \<open>The probe loop\<close>

lemma slug_loop_first_free:
  assumes "0 \<le> c" "c \<le> k" "k \<le> 2147483647"
    and "\<forall>j. c \<le> j \<and> j < k \<longrightarrow> slug_exists cards (candidate b j) p"
    and "\<not> slug_exists cards (candidate b k) p"
  shows "slug_loop cards p b c (candidate b c) = Inr (candidate b k)"
  using assms
proof (induction "nat (k - c)" arbitrary: c)
  case 0
  then have "c = k" by simp
  with 0 show ?case by (simp add: slug_loop.simps)
next
  case (Suc n)
  then have lt: "c < k" by linarith
  with Suc.prems have ex: "slug_exists cards (candidate b c) p" by simp
  have step: "b @ ''-'' @ int_text (c + 1) = candidate b (c + 1)"
    using Suc.prems(1) by (simp add: candidate_def)
  have "slug_loop cards p b (c + 1) (candidate b (c + 1)) = Inr (candidate b k)"
  proof (rule Suc.hyps(1))
    show "n = nat (k - (c + 1))" using Suc.hyps(2) by linarith
  qed (use Suc.prems lt in auto)
  with ex lt Suc.prems(3) step show ?case
    by (subst slug_loop.simps) simp
qed

lemma slug_loop_overflow:
  assumes "0 \<le> c" "c \<le> 2147483647"
    and "\<forall>j. c \<le> j \<and> j \<le> 2147483647 \<longrightarrow> slug_exists cards (candidate b j) p"
  shows "slug_loop cards p b c (candidate b c) = Inl integer_out_of_range"
  using assms
proof (induction "nat (2147483647 - c)" arbitrary: c)
  case 0
  then have "c = 2147483647" by simp
  with 0 show ?case by (simp add: slug_loop.simps)
next
  case (Suc n)
  then have lt: "c < 2147483647" by linarith
  from Suc.prems have ex: "slug_exists cards (candidate b c) p" by simp
  have step: "b @ ''-'' @ int_text (c + 1) = candidate b (c + 1)"
    using Suc.prems(1) by (simp add: candidate_def)
  have "slug_loop cards p b (c + 1) (candidate b (c + 1)) = Inl integer_out_of_range"
  proof (rule Suc.hyps(1))
    show "n = nat (2147483647 - (c + 1))" using Suc.hyps(2) by linarith
  qed (use Suc.prems lt in auto)
  with ex lt step show ?case
    by (subst slug_loop.simps) simp
qed

lemma of_char_digit_char: "d < 10 \<Longrightarrow> (of_char (digit_char d) :: nat) = 48 + d"
  by (simp add: digit_char_def)

lemma text_nat_nat_text: "text_nat (nat_text n) = n"
proof (induction n rule: nat_text.induct)
  case (1 n)
  show ?case
  proof (cases "n < 10")
    case True
    then show ?thesis by (simp add: text_nat_def of_char_digit_char)
  next
    case False
    with 1 have ih: "text_nat (nat_text (n div 10)) = n div 10" by simp
    have "text_nat (nat_text n) = 10 * text_nat (nat_text (n div 10)) + n mod 10"
      using False by (subst nat_text.simps) (simp add: text_nat_def of_char_digit_char)
    with ih show ?thesis by simp
  qed
qed

lemma nat_text_inj: "nat_text m = nat_text n \<Longrightarrow> m = n"
  by (metis text_nat_nat_text)

lemma candidate_inj:
  assumes "0 \<le> j" "0 \<le> k" "candidate b j = candidate b k"
  shows "j = k"
proof (cases "j = 0 \<or> k = 0")
  case True
  with assms(3) show ?thesis by (auto simp: candidate_def split: if_splits)
next
  case False
  with assms have "nat_text (nat j) = nat_text (nat k)"
    by (simp add: candidate_def int_text_def)
  then have "nat j = nat k" by (rule nat_text_inj)
  with assms show ?thesis by simp
qed

lemma slug_exists_slug_mem:
  "slug_exists cards s p \<Longrightarrow> Some s \<in> slug ` set cards"
  unfolding slug_exists_def list_ex_iff by (metis image_eqI)

lemma free_candidate_exists:
  assumes "length cards < 2147483648"
  shows "\<exists>k. 0 \<le> k \<and> k \<le> 2147483647 \<and> \<not> slug_exists cards (candidate b k) p"
proof (rule ccontr)
  assume "\<not> ?thesis"
  then have all: "\<And>k. 0 \<le> k \<Longrightarrow> k \<le> 2147483647 \<Longrightarrow> slug_exists cards (candidate b k) p"
    by blast
  let ?f = "\<lambda>k. Some (candidate b k)"
  have sub: "?f ` {0..2147483647} \<subseteq> slug ` set cards"
    using all slug_exists_slug_mem by fastforce
  have inj: "inj_on ?f {0..2147483647}"
    by (auto simp: inj_on_def dest: candidate_inj)
  have "card (?f ` {0..2147483647::int}) = 2147483648"
    using card_image [OF inj] by simp
  moreover have "card (?f ` {0..2147483647::int}) \<le> card (slug ` set cards)"
    using sub by (intro card_mono) auto
  moreover have "card (slug ` set cards) \<le> length cards"
    by (rule order_trans [OF card_image_le card_length]) simp
  ultimately show False using assms by linarith
qed

lemma first_free_candidate:
  assumes "0 \<le> k" "\<not> E (k::int)"
  shows "\<exists>m. 0 \<le> m \<and> m \<le> k \<and> \<not> E m \<and> (\<forall>j. 0 \<le> j \<and> j < m \<longrightarrow> E j)"
proof -
  define P where "P n \<longleftrightarrow> \<not> E (int n)" for n
  have "P (nat k)" using assms by (simp add: P_def)
  then have l: "P (LEAST n. P n)" and m: "\<And>j. j < (LEAST n. P n) \<Longrightarrow> \<not> P j"
    and le: "(LEAST n. P n) \<le> nat k"
    by (auto intro: LeastI Least_le dest: not_less_Least)
  show ?thesis
  proof (intro exI [of _ "int (LEAST n. P n)"] conjI allI impI)
    fix j assume "0 \<le> j \<and> j < int (LEAST n. P n)"
    then have "nat j < (LEAST n. P n)" "int (nat j) = j" by auto
    with m [of "nat j"] show "E j" by (simp add: P_def)
  qed (use l le assms in \<open>auto simp: P_def\<close>)
qed

lemma generate_unique_slug_loop:
  "generate_unique_slug rnd cards input_text tn p =
     slug_loop cards p (base_slug_of rnd input_text) 0 (candidate (base_slug_of rnd input_text) 0)"
  by (simp add: generate_unique_slug_def base_slug_of_def normalise_def candidate_def Let_def)

lemma regexp_replace_nonalnum:
  assumes "\<forall>c \<in> set s. \<not> is_alnum c"
  shows "regexp_replace s = (if s = [] then [] else ''-'')"
proof (cases s)
  case Nil
  then show ?thesis by simp
next
  case (Cons c cs)
  with assms have dw: "dropWhile (\<lambda>d. \<not> is_alnum d) cs = []" by simp
  from Cons assms
  have "regexp_replace s = CHR ''-'' # regexp_replace (dropWhile (\<lambda>d. \<not> is_alnum d) cs)"
    by simp
  also have "\<dots> = ''-''"
    by (simp only: dw regexp_replace.simps)
  finally show ?thesis using Cons by simp
qed

lemma normalise_nonalnum: "\<forall>c \<in> set s. \<not> is_alnum c \<Longrightarrow> normalise s = []"
  by (simp add: normalise_def regexp_replace_nonalnum lower_def lower_char_def trim_both_def)

lemma nibble_less: "unat ((w :: uuid) AND 15) < 16"
proof -
  have "unat (w AND 15) \<le> unat (15 :: uuid)"
    by (rule word_and_le1 [THEN word_le_nat_alt [THEN iffD1]])
  then show ?thesis by simp
qed

lemma hex_digit_slug_char:
  assumes "d < 16"
  shows "is_slug_char (hex_digit d) \<and> hex_digit d \<noteq> CHR ''-''"
proof -
  have "(of_char (hex_digit d) :: nat) = (if d < 10 then 48 + d else 87 + d)"
    using assms by (simp add: hex_digit_def)
  with assms show ?thesis
    by (auto simp: is_slug_char_def Let_def split: if_splits)
qed

lemma length_uuid_hex: "length (uuid_hex u) = 32"
  by (simp add: uuid_hex_def)

lemma substr_uuid_text: "substr (uuid_text u) 1 8 = take 8 (uuid_hex u)"
  by (simp add: substr_def uuid_text_def Let_def length_uuid_hex)

lemma uuid_hex_chars: "c \<in> set (uuid_hex u) \<Longrightarrow> is_slug_char c \<and> c \<noteq> CHR ''-''"
  unfolding uuid_hex_def using hex_digit_slug_char [OF nibble_less] by auto

lemma digit_char_slug_char:
  assumes "d < 10"
  shows "is_slug_char (digit_char d) \<and> digit_char d \<noteq> CHR ''-''"
proof -
  have "(of_char (digit_char d) :: nat) = 48 + d"
    using assms by (simp add: digit_char_def)
  with assms show ?thesis
    by (auto simp: is_slug_char_def Let_def)
qed

lemma nat_text_shape:
  "nat_text n \<noteq> [] \<and> list_all is_slug_char (nat_text n) \<and> last (nat_text n) \<noteq> CHR ''-''"
proof (induction n rule: nat_text.induct)
  case (1 n)
  show ?case
  proof (cases "n < 10")
    case True
    then show ?thesis using digit_char_slug_char [of n] by simp
  next
    case False
    have "n mod 10 < 10" by simp
    from digit_char_slug_char [OF this] 1 False show ?thesis
      by (subst (1 2 3) nat_text.simps) simp
  qed
qed

lemma candidate_well_formed:
  assumes "well_formed_slug b" "0 \<le> k"
  shows "well_formed_slug (candidate b k)"
proof (cases "k = 0")
  case True
  with assms show ?thesis by (simp add: candidate_def)
next
  case False
  have "is_slug_char CHR ''-''" by (simp add: is_slug_char_def)
  with assms False nat_text_shape [of "nat k"] show ?thesis
    by (simp add: candidate_def int_text_def well_formed_slug_def)
qed

lemma fallback_well_formed: "well_formed_slug (''card-'' @ substr (uuid_text rnd) 1 8)"
proof -
  let ?h = "take 8 (uuid_hex rnd)"
  have ne: "?h \<noteq> []" by (simp add: length_uuid_hex flip: length_greater_0_conv)
  have ch: "\<And>c. c \<in> set ?h \<Longrightarrow> is_slug_char c \<and> c \<noteq> CHR ''-''"
    by (rule uuid_hex_chars) (erule in_set_takeD)
  have "last ?h \<in> set ?h" using ne by (rule last_in_set)
  then have l: "last ?h \<noteq> CHR ''-''" using ch by blast
  have c: "list_all is_slug_char ''card-''" by (simp add: is_slug_char_def)
  have "list_all is_slug_char ?h" using ch by (simp add: list_all_iff)
  with ne l c have "well_formed_slug (''card-'' @ ?h)"
    by (simp add: well_formed_slug_def)
  then show ?thesis by (simp only: substr_uuid_text)
qed

lemma generate_unique_slug_returns:
  assumes "length cards < 2147483648"
  shows "\<exists>k. 0 \<le> k \<and> k \<le> 2147483647
    \<and> generate_unique_slug rnd cards input_text tn p = Inr (candidate (base_slug_of rnd input_text) k)
    \<and> \<not> slug_exists cards (candidate (base_slug_of rnd input_text) k) p
    \<and> (\<forall>j. 0 \<le> j \<and> j < k \<longrightarrow> slug_exists cards (candidate (base_slug_of rnd input_text) j) p)"
proof -
  let ?b = "base_slug_of rnd input_text"
  from free_candidate_exists [OF assms, of ?b p]
  obtain k where k: "0 \<le> k" "k \<le> 2147483647" "\<not> slug_exists cards (candidate ?b k) p"
    by blast
  from first_free_candidate [of k "\<lambda>k. slug_exists cards (candidate ?b k) p", OF k(1) k(3)]
  obtain m where m: "0 \<le> m" "m \<le> k" "\<not> slug_exists cards (candidate ?b m) p"
    "\<forall>j. 0 \<le> j \<and> j < m \<longrightarrow> slug_exists cards (candidate ?b j) p"
    by blast
  have "slug_loop cards p ?b 0 (candidate ?b 0) = Inr (candidate ?b m)"
    using m k by (intro slug_loop_first_free) auto
  with m k show ?thesis
    unfolding generate_unique_slug_loop by (intro exI [of _ m]) auto
qed

section \<open>A table on which the counter overflows\<close>

lemma set_colliding_cards:
  "set (colliding_cards b) =
     (\<lambda>n. example_card (of_nat n) (of_nat n) (Some (candidate b (int n))) None) ` {0..<2147483648}"
  unfolding colliding_cards_def set_map set_upt ..

lemma length_colliding_cards: "length (colliding_cards b) = 2147483648"
  unfolding colliding_cards_def length_map length_upt by simp

lemma owner_of_nat_neq:
  assumes "n < 2147483648"
  shows "(of_nat n :: uuid) \<noteq> 2147483648"
proof
  assume "(of_nat n :: uuid) = 2147483648"
  then have "unat (of_nat n :: uuid) = unat (2147483648 :: uuid)" by simp
  moreover have "unat (of_nat n :: uuid) = n"
    using assms by (simp add: unat_of_nat)
  ultimately show False using assms by simp
qed

lemma colliding_cards_exists:
  assumes "0 \<le> j" "j \<le> 2147483647" "p = None \<or> p = Some 2147483648"
  shows "slug_exists (colliding_cards b) (candidate b j) p"
proof -
  let ?r = "example_card (of_nat (nat j)) (of_nat (nat j)) (Some (candidate b (int (nat j)))) None"
  have n: "nat j < 2147483648" using assms by linarith
  then have mem: "?r \<in> set (colliding_cards b)"
    unfolding set_colliding_cards by (intro imageI) simp
  have "slug ?r = Some (candidate b j)" "user_id ?r = Some (of_nat (nat j))"
    using assms by (simp_all add: example_card_def)
  with assms(3) owner_of_nat_neq [OF n] mem show ?thesis
    unfolding slug_exists_def list_ex_iff by (intro bexI [of _ ?r]) auto
qed

lemma colliding_cards_overflow:
  assumes "p = None \<or> p = Some 2147483648"
  shows "slug_loop (colliding_cards b) p b 0 (candidate b 0) = Inl integer_out_of_range"
  using assms by (intro slug_loop_overflow) (auto intro: colliding_cards_exists)

lemma colliding_cards_free:
  "\<not> slug_exists (colliding_cards b) (candidate b 2147483648) p"
proof
  assume "slug_exists (colliding_cards b) (candidate b 2147483648) p"
  then have "Some (candidate b 2147483648) \<in> slug ` set (colliding_cards b)"
    by (rule slug_exists_slug_mem)
  then obtain n where "n < 2147483648" "candidate b 2147483648 = candidate b (int n)"
    unfolding set_colliding_cards by (auto simp: example_card_def)
  then show False using candidate_inj [of 2147483648 "int n" b] by simp
qed

text \<open>The table satisfies the uniqueness constraints on \<open>id\<close>, \<open>user_id\<close> and \<open>slug\<close>.\<close>

lemma colliding_cards_distinct:
  "distinct (map user_id (colliding_cards b)) \<and> distinct (map slug (colliding_cards b))
   \<and> distinct (map row_id (colliding_cards b))"
proof -
  have u: "unat (of_nat n :: uuid) = n" if "n < 2147483648" for n
    using that by (simp add: unat_of_nat)
  have inj_id: "inj_on (\<lambda>n. (of_nat n :: uuid)) {0..<2147483648}"
  proof (rule inj_onI)
    fix m n :: nat
    assume "m \<in> {0..<2147483648}" "n \<in> {0..<2147483648}" "(of_nat m :: uuid) = of_nat n"
    then have "unat (of_nat m :: uuid) = unat (of_nat n :: uuid)" "m < 2147483648" "n < 2147483648"
      by simp_all
    then show "m = n" using u by simp
  qed
  then have inj_owner: "inj_on (\<lambda>n. Some (of_nat n :: uuid)) {0..<2147483648}"
    by (simp add: inj_on_def)
  have inj_slug: "inj_on (\<lambda>n. Some (candidate b (int n))) {0..<2147483648}"
    by (auto simp: inj_on_def dest: candidate_inj [rotated 2])
  have m1: "map user_id (colliding_cards b) = map (\<lambda>n. Some (of_nat n :: uuid)) [0..<2147483648]"
    unfolding colliding_cards_def map_map by (simp add: example_card_def comp_def)
  have m2: "map slug (colliding_cards b) = map (\<lambda>n. Some (candidate b (int n))) [0..<2147483648]"
    unfolding colliding_cards_def map_map by (simp add: example_card_def comp_def)
  have m3: "map row_id (colliding_cards b) = map (\<lambda>n. (of_nat n :: uuid)) [0..<2147483648]"
    unfolding colliding_cards_def map_map by (simp add: example_card_def comp_def)
  show ?thesis
    unfolding m1 m2 m3 distinct_map set_upt
    using inj_id inj_owner inj_slug by (simp only: distinct_upt simp_thms)
qed

lemma base_card: "base_slug_of 0 ''card'' = ''card''"
  by code_simp

lemma base_Alice: "normalise ''Alice'' = ''alice''"
  by code_simp

lemma base_fallback: "base_slug_of 0 ''!!!'' = ''card-00000000''"
  by code_simp

section \<open>What the generator returns\<close>

lemma slug_exists_iff:
  "slug_exists snapshot s p \<longleftrightarrow>
     (\<exists>r \<in> set snapshot. slug r = Some s \<and> (p = None \<or> (\<exists>u. user_id r = Some u \<and> Some u \<noteq> p)))"
  unfolding slug_exists_def list_ex_iff
  by (cases p) (auto split: option.splits)

lemma base_slug_of_normalise: "normalise input_text \<noteq> [] \<Longrightarrow> base_slug_of rnd input_text = normalise input_text"
  by (simp add: base_slug_of_def)

lemma int_text_1: "int_text 1 = ''1''"
  by code_simp

lemma candidate_1: "candidate b 1 = b @ ''-1''"
  by (simp add: candidate_def int_text_1)

lemma generate_unique_slug_second:
  assumes "base_slug_of rnd input_text = b"
    and "slug_exists snapshot b p" and "\<not> slug_exists snapshot (b @ ''-1'') p"
  shows "generate_unique_slug rnd snapshot input_text tn p = Inr (b @ ''-1'')"
proof -
  have "slug_loop snapshot p b 0 (candidate b 0) = Inr (candidate b 1)"
  proof (rule slug_loop_first_free)
    show "\<forall>j. 0 \<le> j \<and> j < 1 \<longrightarrow> slug_exists snapshot (candidate b j) p"
    proof (intro allI impI)
      fix j :: int assume "0 \<le> j \<and> j < 1"
      then have "j = 0" by simp
      with assms(2) show "slug_exists snapshot (candidate b j) p" by (simp add: candidate_def)
    qed
  qed (use assms(3) in \<open>simp_all add: candidate_1\<close>)
  with assms(1) show ?thesis
    unfolding generate_unique_slug_loop by (simp add: candidate_1)
qed

text \<open>
  Claim C1, amended. For every seed text whose normalisation is not empty and every
  snapshot, \<open>generate_unique_slug\<close> returns the first candidate among \<open>base\<close>, \<open>base-1\<close>,
  ..., \<open>base-2147483647\<close> for which no conflicting row exists; there is one whenever the
  snapshot has fewer than \<open>2\<^sup>3\<^sup>1\<close> rows. When all of them conflict, the 32-bit counter
  overflows and the function raises \<open>integer out of range\<close>. A conflicting row holds
  exactly that slug and is owned by a user other than the excluded owner (every row with
  that slug when no owner is excluded).
\<close>

theorem generate_unique_slug_first_free:
  assumes "normalise input_text \<noteq> []"
  shows "(\<forall>k. 0 \<le> k \<and> k \<le> 2147483647
            \<and> \<not> slug_exists snapshot (candidate (normalise input_text) k) p
            \<and> (\<forall>j. 0 \<le> j \<and> j < k \<longrightarrow> slug_exists snapshot (candidate (normalise input_text) j) p)
          \<longrightarrow> generate_unique_slug rnd snapshot input_text tn p
                = Inr (candidate (normalise input_text) k))
    \<and> ((\<forall>k. 0 \<le> k \<and> k \<le> 2147483647
              \<longrightarrow> slug_exists snapshot (candidate (normalise input_text) k) p)
          \<longrightarrow> generate_unique_slug rnd snapshot input_text tn p = Inl integer_out_of_range)
    \<and> (length snapshot < 2147483648 \<longrightarrow>
          (\<exists>k. 0 \<le> k \<and> k \<le> 2147483647
             \<and> generate_unique_slug rnd snapshot input_text tn p
                 = Inr (candidate (normalise input_text) k)
             \<and> \<not> slug_exists snapshot (candidate (normalise input_text) k) p
             \<and> (\<forall>j. 0 \<le> j \<and> j < k
                   \<longrightarrow> slug_exists snapshot (candidate (normalise input_text) j) p)))
    \<and> (\<forall>s. slug_exists snapshot s p \<longleftrightarrow>
          (\<exists>r \<in> set snapshot. slug r = Some s
             \<and> (p = None \<or> (\<exists>u. user_id r = Some u \<and> Some u \<noteq> p))))"
proof (intro conjI allI impI)
  fix k
  assume "0 \<le> k \<and> k \<le> 2147483647
    \<and> \<not> slug_exists snapshot (candidate (normalise input_text) k) p
    \<and> (\<forall>j. 0 \<le> j \<and> j < k \<longrightarrow> slug_exists snapshot (candidate (normalise input_text) j) p)"
  then have "slug_loop snapshot p (normalise input_text) 0 (candidate (normalise input_text) 0)
      = Inr (candidate (normalise input_text) k)"
    by (intro slug_loop_first_free) auto
  then show "generate_unique_slug rnd snapshot input_text tn p = Inr (candidate (normalise input_text) k)"
    unfolding generate_unique_slug_loop base_slug_of_normalise [OF assms] .
next
  assume "\<forall>k. 0 \<le> k \<and> k \<le> 2147483647
    \<longrightarrow> slug_exists snapshot (candidate (normalise input_text) k) p"
  then have "slug_loop snapshot p (normalise input_text) 0 (candidate (normalise input_text) 0)
      = Inl integer_out_of_range"
    by (intro slug_loop_overflow) auto
  then show "generate_unique_slug rnd snapshot input_text tn p = Inl integer_out_of_range"
    unfolding generate_unique_slug_loop base_slug_of_normalise [OF assms] .
next
  assume "length snapshot < 2147483648"
  from generate_unique_slug_returns [OF this, of rnd input_text tn p]
  show "\<exists>k. 0 \<le> k \<and> k \<le> 2147483647
     \<and> generate_unique_slug rnd snapshot input_text tn p = Inr (candidate (normalise input_text) k)
     \<and> \<not> slug_exists snapshot (candidate (normalise input_text) k) p
     \<and> (\<forall>j. 0 \<le> j \<and> j < k \<longrightarrow> slug_exists snapshot (candidate (normalise input_text) j) p)"
    unfolding base_slug_of_normalise [OF assms] .
next
  fix s
  show "slug_exists snapshot s p \<longleftrightarrow>
     (\<exists>r \<in> set snapshot. slug r = Some s \<and> (p = None \<or> (\<exists>u. user_id r = Some u \<and> Some u \<noteq> p)))"
    by (rule slug_exists_iff)
qed

text \<open>
  Claim C1 as stated fails on a snapshot of \<open>2\<^sup>3\<^sup>1\<close> rows that hold \<open>alice\<close>, \<open>alice-1\<close>,
  ..., \<open>alice-2147483647\<close>: the candidate \<open>alice-2147483648\<close> is free, and the function
  raises instead of returning it.
\<close>

theorem generate_unique_slug_first_free_counterexample:
  "normalise ''Alice'' \<noteq> []
   \<and> \<not> slug_exists (colliding_cards ''alice'') (candidate ''alice'' 2147483648) (Some 2147483648)
   \<and> generate_unique_slug 0 (colliding_cards ''alice'') ''Alice'' ''business_cards''
        (Some 2147483648) = Inl integer_out_of_range"
proof -
  have b: "base_slug_of 0 ''Alice'' = ''alice''"
    by (simp add: base_slug_of_def base_Alice)
  show ?thesis
    unfolding generate_unique_slug_loop b
    by (simp add: base_Alice colliding_cards_free colliding_cards_overflow)
qed

text \<open>
  The theorem at the seed \<open>Alice\<close>, with \<open>alice\<close> and \<open>alice-1\<close> held by two other users.
\<close>

theorem generate_unique_slug_first_free_witness:
  "normalise ''Alice'' \<noteq> []
   \<and> generate_unique_slug 0
        [example_card 1 1 (Some ''alice'') None, example_card 2 2 (Some ''alice-1'') None]
        ''Alice'' ''business_cards'' (Some 3) = Inr ''alice-2''"
proof -
  let ?snap = "[example_card 1 1 (Some ''alice'') None, example_card 2 2 (Some ''alice-1'') None]"
  have h: "normalise ''Alice'' \<noteq> []" by (simp add: base_Alice)
  have e0: "slug_exists ?snap (candidate ''alice'' 0) (Some 3)" by code_simp
  have e1: "slug_exists ?snap (candidate ''alice'' 1) (Some 3)" by code_simp
  have f2: "\<not> slug_exists ?snap (candidate ''alice'' 2) (Some 3)" by code_simp
  have below: "\<forall>j. 0 \<le> j \<and> j < 2 \<longrightarrow> slug_exists ?snap (candidate ''alice'' j) (Some 3)"
  proof (intro allI impI)
    fix j :: int assume "0 \<le> j \<and> j < 2"
    then have "j = 0 \<or> j = 1" by linarith
    with e0 e1 show "slug_exists ?snap (candidate ''alice'' j) (Some 3)" by auto
  qed
  have c2: "candidate ''alice'' 2 = ''alice-2''" by code_simp
  from generate_unique_slug_first_free [OF h, of ?snap "Some 3" 0 "''business_cards''"]
  have "\<forall>k. 0 \<le> k \<and> k \<le> 2147483647
            \<and> \<not> slug_exists ?snap (candidate (normalise ''Alice'') k) (Some 3)
            \<and> (\<forall>j. 0 \<le> j \<and> j < k \<longrightarrow> slug_exists ?snap (candidate (normalise ''Alice'') j) (Some 3))
          \<longrightarrow> generate_unique_slug 0 ?snap ''Alice'' ''business_cards'' (Some 3)
                = Inr (candidate (normalise ''Alice'') k)"
    by (rule conjunct1)
  from this [THEN spec [where x = 2]] f2 below
  have "generate_unique_slug 0 ?snap ''Alice'' ''business_cards'' (Some 3)
      = Inr (candidate (normalise ''Alice'') 2)"
    unfolding base_Alice by simp
  with h show ?thesis by (simp add: base_Alice c2)
qed

text \<open>
  Claim C7, amended. The probe ends on every seed text and every snapshot (the loop is a
  total function, bounded by the 32-bit counter). On a snapshot of fewer than \<open>2\<^sup>3\<^sup>1\<close> rows
  the candidates, which are pairwise distinct, cannot all be taken, and a free value is
  found and returned; in general the function returns a free value or raises
  \<open>integer out of range\<close>.
\<close>

theorem slug_probe_terminates:
  "(length snapshot < 2147483648 \<longrightarrow>
      (\<exists>s. generate_unique_slug rnd snapshot input_text tn p = Inr s
           \<and> \<not> slug_exists snapshot s p))
   \<and> ((\<exists>s. generate_unique_slug rnd snapshot input_text tn p = Inr s
            \<and> \<not> slug_exists snapshot s p)
        \<or> generate_unique_slug rnd snapshot input_text tn p = Inl integer_out_of_range)"
proof (intro conjI impI)
  assume "length snapshot < 2147483648"
  from generate_unique_slug_returns [OF this, of rnd input_text tn p]
  show "\<exists>s. generate_unique_slug rnd snapshot input_text tn p = Inr s \<and> \<not> slug_exists snapshot s p"
    by blast
next
  let ?b = "base_slug_of rnd input_text"
  show "(\<exists>s. generate_unique_slug rnd snapshot input_text tn p = Inr s \<and> \<not> slug_exists snapshot s p)
      \<or> generate_unique_slug rnd snapshot input_text tn p = Inl integer_out_of_range"
  proof (cases "\<exists>k. 0 \<le> k \<and> k \<le> 2147483647 \<and> \<not> slug_exists snapshot (candidate ?b k) p")
    case True
    then obtain k where k: "0 \<le> k" "k \<le> 2147483647" "\<not> slug_exists snapshot (candidate ?b k) p"
      by blast
    from first_free_candidate [of k "\<lambda>k. slug_exists snapshot (candidate ?b k) p", OF k(1) k(3)]
    obtain m where m: "0 \<le> m" "m \<le> k" "\<not> slug_exists snapshot (candidate ?b m) p"
      "\<forall>j. 0 \<le> j \<and> j < m \<longrightarrow> slug_exists snapshot (candidate ?b j) p"
      by blast
    have "slug_loop snapshot p ?b 0 (candidate ?b 0) = Inr (candidate ?b m)"
      using m k by (intro slug_loop_first_free) auto
    with m(3) show ?thesis unfolding generate_unique_slug_loop by blast
  next
    case False
    then have "slug_loop snapshot p ?b 0 (candidate ?b 0) = Inl integer_out_of_range"
      by (intro slug_loop_overflow) auto
    then show ?thesis unfolding generate_unique_slug_loop by blast
  qed
qed

text \<open>
  The theorem on a snapshot of one row that holds the base slug.
\<close>

theorem slug_probe_terminates_witness:
  "length [example_card 1 1 (Some ''card'') None] < 2147483648
   \<and> (\<exists>s. generate_unique_slug 0 [example_card 1 1 (Some ''card'') None] ''card''
             ''business_cards'' None = Inr s
          \<and> \<not> slug_exists [example_card 1 1 (Some ''card'') None] s None)"
  using slug_probe_terminates [of "[example_card 1 1 (Some ''card'') None]" 0 "''card''"
      "''business_cards''" None]
  by simp

text \<open>
  Claim C7 as stated fails on a snapshot of \<open>2\<^sup>3\<^sup>1\<close> rows that hold \<open>card\<close>, \<open>card-1\<close>, ...,
  \<open>card-2147483647\<close>: no value is returned.
\<close>

theorem slug_probe_terminates_counterexample:
  "length (colliding_cards ''card'') = 2147483648
   \<and> generate_unique_slug 0 (colliding_cards ''card'') ''card'' ''business_cards'' None
       = Inl integer_out_of_range"
  unfolding generate_unique_slug_loop base_card
  by (simp add: length_colliding_cards colliding_cards_overflow)

text \<open>
  Claim C3, amended. For every input text without a character of \<open>[a-zA-Z0-9]\<close> and
  every snapshot of fewer than \<open>2\<^sup>3\<^sup>1\<close> rows, the generator returns a candidate of the
  fallback base \<open>card-\<close> plus the first eight hexadecimal digits of the random uuid; the
  slug is not empty, matches \<open>[a-z0-9-]+\<close> and neither starts nor ends with a hyphen.
\<close>

theorem fallback_slug_well_formed:
  assumes "\<forall>c \<in> set input_text. \<not> is_alnum c" and "length snapshot < 2147483648"
  shows "\<exists>s k. generate_unique_slug rnd snapshot input_text tn p = Inr s
    \<and> 0 \<le> k \<and> s = candidate (''card-'' @ substr (uuid_text rnd) 1 8) k
    \<and> s \<noteq> [] \<and> list_all is_slug_char s \<and> hd s \<noteq> CHR ''-'' \<and> last s \<noteq> CHR ''-''"
proof -
  have b: "base_slug_of rnd input_text = ''card-'' @ substr (uuid_text rnd) 1 8"
    using assms(1) by (simp add: base_slug_of_def normalise_nonalnum)
  from generate_unique_slug_returns [OF assms(2), of rnd input_text tn p]
  obtain k where k: "0 \<le> k"
    "generate_unique_slug rnd snapshot input_text tn p = Inr (candidate (base_slug_of rnd input_text) k)"
    by blast
  have "well_formed_slug (candidate (''card-'' @ substr (uuid_text rnd) 1 8) k)"
    using fallback_well_formed k(1) by (rule candidate_well_formed)
  with k show ?thesis unfolding b well_formed_slug_def by blast
qed

text \<open>
  The theorem at the input \<open>!!!\<close>, the random uuid 0 and a snapshot that holds the
  fallback base.
\<close>

theorem fallback_slug_well_formed_witness:
  "list_all (\<lambda>c. \<not> is_alnum c) ''!!!''
   \<and> length [example_card 1 1 (Some ''card-00000000'') None] < 2147483648
   \<and> (\<exists>s k. generate_unique_slug 0 [example_card 1 1 (Some ''card-00000000'') None] ''!!!''
               ''business_cards'' (Some 2) = Inr s
          \<and> 0 \<le> k \<and> s = candidate (''card-'' @ substr (uuid_text 0) 1 8) k
          \<and> s \<noteq> [] \<and> list_all is_slug_char s \<and> hd s \<noteq> CHR ''-'' \<and> last s \<noteq> CHR ''-'')"
proof -
  have a: "\<forall>c \<in> set ''!!!''. \<not> is_alnum c" by (simp add: is_alnum_def)
  have l: "length [example_card 1 1 (Some ''card-00000000'') None] < 2147483648" by simp
  have a': "list_all (\<lambda>c. \<not> is_alnum c) ''!!!''" by (simp add: is_alnum_def)
  from fallback_slug_well_formed [OF a l, of 0 "''business_cards''" "Some 2"] a' l
  show ?thesis by blast
qed

text \<open>
  Claim C3 as stated fails when \<open>2\<^sup>3\<^sup>1\<close> rows hold the fallback base and its successors:
  the generator raises and returns no slug.
\<close>

theorem fallback_slug_well_formed_counterexample:
  "\<not> is_alnum CHR ''!''
   \<and> generate_unique_slug 0 (colliding_cards ''card-00000000'') ''!!!'' ''business_cards'' None
       = Inl integer_out_of_range"
  unfolding generate_unique_slug_loop base_fallback
  by (simp add: colliding_cards_overflow is_alnum_def)

section \<open>Collisions with a stored slug\<close>

text \<open>
  Claim C2, amended. Given a snapshot with a row whose slug is \<open>card-1\<close> and no row
  whose slug is \<open>card-1-1\<close>, the generator run with no owner excluded on a seed text that
  normalises to \<open>card-1\<close> returns \<open>card-1-1\<close>: the counter is appended to the whole base
  slug, a number at the end of the base is not incremented.
\<close>

theorem suffix_appended_to_numbered_base:
  assumes "normalise input_text = ''card-1''"
    and "r \<in> set snapshot" and "slug r = Some ''card-1''"
    and "\<forall>r' \<in> set snapshot. slug r' \<noteq> Some ''card-1-1''"
  shows "generate_unique_slug rnd snapshot input_text tn None = Inr ''card-1-1''"
proof -
  have b: "base_slug_of rnd input_text = ''card-1''"
    using assms(1) by (simp add: base_slug_of_def)
  have e: "slug_exists snapshot ''card-1'' None"
    using assms(2,3) unfolding slug_exists_iff by blast
  have f: "\<not> slug_exists snapshot (''card-1'' @ ''-1'') None"
    using assms(4) unfolding slug_exists_iff by simp
  from generate_unique_slug_second [OF b e f] show ?thesis by simp
qed

text \<open>
  The theorem at the seed \<open>Card 1\<close> and a snapshot of one row.
\<close>

theorem suffix_appended_to_numbered_base_witness:
  "normalise ''Card 1'' = ''card-1''
   \<and> example_card 1 1 (Some ''card-1'') None \<in> set [example_card 1 1 (Some ''card-1'') None]
   \<and> slug (example_card 1 1 (Some ''card-1'') None) = Some ''card-1''
   \<and> list_all (\<lambda>r'. slug r' \<noteq> Some ''card-1-1'') [example_card 1 1 (Some ''card-1'') None]
   \<and> generate_unique_slug 0 [example_card 1 1 (Some ''card-1'') None] ''Card 1''
        ''business_cards'' None = Inr ''card-1-1''"
proof -
  have n: "normalise ''Card 1'' = ''card-1''" by code_simp
  have s: "slug (example_card 1 1 (Some ''card-1'') None) = Some ''card-1''"
    by (simp add: example_card_def)
  have a: "\<forall>r' \<in> set [example_card 1 1 (Some ''card-1'') None]. slug r' \<noteq> Some ''card-1-1''"
    by (simp add: example_card_def)
  have m: "example_card 1 1 (Some ''card-1'') None \<in> set [example_card 1 1 (Some ''card-1'') None]"
    by simp
  from suffix_appended_to_numbered_base [OF n m s a, of 0 "''business_cards''"] n s a
  show ?thesis by (simp add: list_all_iff)
qed

text \<open>
  Claim C2 as stated fails: on a snapshot of one row with the slug \<open>card-1\<close> and the seed
  \<open>card-1\<close> the generator returns \<open>card-1-1\<close>, not \<open>card-2\<close>.
\<close>

theorem card_2_counterexample:
  "normalise ''card-1'' = ''card-1''
   \<and> generate_unique_slug 0 [example_card 1 1 (Some ''card-1'') None] ''card-1''
        ''business_cards'' None = Inr ''card-1-1''
   \<and> generate_unique_slug 0 [example_card 1 1 (Some ''card-1'') None] ''card-1''
        ''business_cards'' None \<noteq> Inr ''card-2''"
proof -
  have n: "normalise ''card-1'' = ''card-1''" by code_simp
  have g: "generate_unique_slug 0 [example_card 1 1 (Some ''card-1'') None] ''card-1''
        ''business_cards'' None = Inr ''card-1-1''" by code_simp
  show ?thesis unfolding g using n by simp
qed

text \<open>
  Claim C5, amended. Given a snapshot in which the row of user \<open>u\<close> holds the slug
  \<open>alice\<close> and no row of a third user holds \<open>alice-1\<close>, the generator invoked for
  another user \<open>v\<close> with the seed \<open>alice\<close>, excluding the owner \<open>v\<close>, takes the row of
  \<open>u\<close> as a conflict and returns \<open>alice-1\<close>.
\<close>

theorem second_user_gets_suffix:
  assumes "u \<noteq> v"
    and "r \<in> set snapshot" and "slug r = Some ''alice''" and "user_id r = Some u"
    and "\<forall>r' \<in> set snapshot. slug r' = Some ''alice-1''
            \<longrightarrow> user_id r' = None \<or> user_id r' = Some v"
  shows "generate_unique_slug rnd snapshot ''alice'' tn (Some v) = Inr ''alice-1''"
proof -
  have "normalise ''alice'' = ''alice''" by code_simp
  then have b: "base_slug_of rnd ''alice'' = ''alice''"
    by (simp add: base_slug_of_def)
  have e: "slug_exists snapshot ''alice'' (Some v)"
    using assms(1-4) unfolding slug_exists_iff by auto
  have f: "\<not> slug_exists snapshot (''alice'' @ ''-1'') (Some v)"
    using assms(5) unfolding slug_exists_iff by auto
  from generate_unique_slug_second [OF b e f] show ?thesis by simp
qed

text \<open>
  The theorem for the users 1 and 2 and a snapshot of the one row of user 1.
\<close>

theorem second_user_gets_suffix_witness:
  "(1 :: uuid) \<noteq> 2
   \<and> example_card 10 1 (Some ''alice'') None \<in> set [example_card 10 1 (Some ''alice'') None]
   \<and> slug (example_card 10 1 (Some ''alice'') None) = Some ''alice''
   \<and> user_id (example_card 10 1 (Some ''alice'') None) = Some 1
   \<and> list_all (\<lambda>r'. slug r' \<noteq> Some ''alice-1'') [example_card 10 1 (Some ''alice'') None]
   \<and> generate_unique_slug 0 [example_card 10 1 (Some ''alice'') None] ''alice''
        ''business_cards'' (Some 2) = Inr ''alice-1''"
proof -
  let ?r = "example_card 10 1 (Some ''alice'') None"
  have d: "(1 :: uuid) \<noteq> 2" by simp
  have m: "?r \<in> set [?r]" by simp
  have s: "slug ?r = Some ''alice''" and o: "user_id ?r = Some 1"
    by (simp_all add: example_card_def)
  have a: "\<forall>r' \<in> set [?r]. slug r' = Some ''alice-1'' \<longrightarrow> user_id r' = None \<or> user_id r' = Some 2"
    by (simp add: example_card_def)
  have a': "list_all (\<lambda>r'. slug r' \<noteq> Some ''alice-1'') [?r]"
    by (simp add: example_card_def)
  from second_user_gets_suffix [OF d m s o a, of 0 "''business_cards''"] d s o a'
  show ?thesis by simp
qed

text \<open>
  Claim C5 as stated fails when a third user holds \<open>alice-1\<close>: the generator goes on to
  \<open>alice-2\<close>.
\<close>

theorem third_user_holds_suffix_counterexample:
  "user_id (example_card 10 1 (Some ''alice'') None) = Some 1
   \<and> slug (example_card 10 1 (Some ''alice'') None) = Some ''alice''
   \<and> generate_unique_slug 0
        [example_card 10 1 (Some ''alice'') None, example_card 11 3 (Some ''alice-1'') None]
        ''alice'' ''business_cards'' (Some 2) = Inr ''alice-2''
   \<and> generate_unique_slug 0
        [example_card 10 1 (Some ''alice'') None, example_card 11 3 (Some ''alice-1'') None]
        ''alice'' ''business_cards'' (Some 2) \<noteq> Inr ''alice-1''"
proof -
  have g: "generate_unique_slug 0
        [example_card 10 1 (Some ''alice'') None, example_card 11 3 (Some ''alice-1'') None]
        ''alice'' ''business_cards'' (Some 2) = Inr ''alice-2''"
    by code_simp
  show ?thesis unfolding g by (simp add: example_card_def)
qed

section \<open>What the trigger writes\<close>

lemma assign_slug_frame:
  "assign_slug NEW r = Inr written \<Longrightarrow> written = NEW\<lparr>slug := slug written\<rparr>"
  by (auto simp: assign_slug_def split: sum.splits)

lemma set_card_slug_same:
  assumes "slug NEW = Some s" "s \<noteq> []" "slug OLD = Some s"
  shows "set_card_slug rnd snapshot UPDATE OLD NEW = Inr NEW"
  using assms by (simp add: set_card_slug_def Let_def)

text \<open>The generator returns no empty slug, so the trigger stores none.\<close>

lemma slug_loop_nonempty:
  "final_slug \<noteq> [] \<Longrightarrow> slug_loop snapshot p b counter final_slug = Inr s \<Longrightarrow> s \<noteq> []"
proof (induction snapshot p b counter final_slug rule: slug_loop.induct)
  case (1 snapshot p b counter final_slug)
  show ?case
  proof (cases "slug_exists snapshot final_slug p")
    case False
    with "1.prems" show ?thesis by (simp add: slug_loop.simps)
  next
    case True
    show ?thesis
    proof (cases "counter + 1 > 2147483647")
      case over: True
      with True "1.prems"(2) show ?thesis by (simp add: slug_loop.simps)
    next
      case False
      with True "1.prems"(2)
      have "slug_loop snapshot p b (counter + 1) (b @ ''-'' @ int_text (counter + 1)) = Inr s"
        by (subst (asm) slug_loop.simps) simp
      with "1.IH" [OF True False] show ?thesis by simp
    qed
  qed
qed

lemma base_slug_of_nonempty: "base_slug_of rnd input_text \<noteq> []"
  by (simp add: base_slug_of_def)

lemma generate_unique_slug_nonempty:
  "generate_unique_slug rnd snapshot input_text tn p = Inr s \<Longrightarrow> s \<noteq> []"
  unfolding generate_unique_slug_loop candidate_def
  using slug_loop_nonempty [OF base_slug_of_nonempty] by simp

lemma assign_slug_nonempty:
  "assign_slug NEW (generate_unique_slug rnd snapshot input_text tn p) = Inr written
     \<Longrightarrow> \<exists>s. slug written = Some s \<and> s \<noteq> []"
  by (auto simp: assign_slug_def split: sum.splits dest: generate_unique_slug_nonempty)

lemma trigger_never_stores_empty:
  "set_card_slug rnd snapshot TG_OP OLD NEW = Inr written
     \<Longrightarrow> \<exists>s. slug written = Some s \<and> s \<noteq> []"
  unfolding set_card_slug_def Let_def
  by (auto split: option.splits if_splits dest: assign_slug_nonempty)

lemma perform_slugs:
  assumes "\<forall>r \<in> set table. \<exists>s. slug r = Some s \<and> s \<noteq> []"
  shows "\<forall>r \<in> set (perform table w). \<exists>s. slug r = Some s \<and> s \<noteq> []"
proof (cases w)
  case (Insert_row rnd NEW)
  with assms show ?thesis
    by (auto split: sum.splits dest: trigger_never_stores_empty)
next
  case (Update_row i rnd NEW)
  show ?thesis
  proof (cases "i < length table")
    case False
    with Update_row assms show ?thesis by simp
  next
    case True
    show ?thesis
    proof (cases "set_card_slug rnd table UPDATE (table ! i) NEW")
      case (Inl e)
      with Update_row assms show ?thesis by simp
    next
      case (Inr written)
      then have "\<exists>s. slug written = Some s \<and> s \<noteq> []" by (rule trigger_never_stores_empty)
      moreover have "set (table[i := written]) \<subseteq> insert written (set table)"
        by (rule set_update_subset_insert)
      ultimately show ?thesis using Update_row True Inr assms by auto
    qed
  qed
next
  case (Delete_row i)
  with assms show ?thesis by (auto dest: in_set_takeD in_set_dropD)
qed

lemma foldl_perform_slugs:
  "\<forall>r \<in> set table. \<exists>s. slug r = Some s \<and> s \<noteq> [] \<Longrightarrow>
   \<forall>r \<in> set (foldl perform table ws). \<exists>s. slug r = Some s \<and> s \<noteq> []"
proof (induction ws arbitrary: table)
  case Nil
  then show ?case by simp
next
  case (Cons w ws)
  from perform_slugs [OF Cons.prems, of w] show ?case
    by (simp only: foldl_Cons) (rule Cons.IH)
qed

lemma stored_slug_nonempty:
  "r \<in> set (run_writes ws) \<Longrightarrow> \<exists>s. slug r = Some s \<and> s \<noteq> []"
  using foldl_perform_slugs [of "[]" ws] by (simp add: run_writes_def)

lemma set_card_slug_stored:
  assumes "OLD \<in> set (run_writes ws)" and "slug NEW = slug OLD"
  shows "set_card_slug rnd snapshot UPDATE OLD NEW = Inr NEW"
proof -
  from stored_slug_nonempty [OF assms(1)] obtain s where "slug OLD = Some s" "s \<noteq> []" by blast
  with assms(2) show ?thesis by (simp add: set_card_slug_same)
qed

lemma example_insert:
  "run_writes [Insert_row 0 (example_card 1 1 (Some ''Alice'') (Some ''Alice''))]
     = [example_card 1 1 (Some ''alice'') (Some ''Alice'')]"
proof -
  have g: "generate_unique_slug 0 ([] :: business_card list) ''Alice'' ''business_cards'' (Some 1)
      = Inr ''alice''"
    by code_simp
  show ?thesis
    by (simp add: run_writes_def set_card_slug_def Let_def assign_slug_def example_card_def g)
qed

text \<open>
  The table of the counterexample to claim C5 is the result of two inserts of the slug
  \<open>alice\<close> by the users 1 and 3.
\<close>

lemma example_two_inserts:
  "run_writes [Insert_row 0 (example_card 10 1 (Some ''alice'') None),
               Insert_row 0 (example_card 11 3 (Some ''alice'') None)]
     = [example_card 10 1 (Some ''alice'') None, example_card 11 3 (Some ''alice-1'') None]"
proof -
  have g1: "generate_unique_slug 0 ([] :: business_card list) ''alice'' ''business_cards'' (Some 1)
      = Inr ''alice''"
    by code_simp
  have g2: "generate_unique_slug 0 [example_card 10 1 (Some ''alice'') None] ''alice''
      ''business_cards'' (Some 3) = Inr ''alice-1''"
    by code_simp
  show ?thesis
    by (simp add: run_writes_def set_card_slug_def Let_def assign_slug_def example_card_def
        g1 g2 [unfolded example_card_def])
qed

text \<open>
  Claim C4. For every \<open>UPDATE\<close> of a stored card row where the new slug equals the
  stored slug, the trigger returns the row as it was submitted, whatever the snapshot: the
  generator is not run and no suffix is appended. A stored row is a row of a table that
  writes through the trigger have produced; its slug is never empty.
\<close>

theorem update_same_slug_unchanged:
  assumes "OLD \<in> set (run_writes ws)" and "slug NEW = slug OLD"
  shows "set_card_slug rnd snapshot UPDATE OLD NEW = Inr NEW"
  using assms by (rule set_card_slug_stored)

text \<open>
  The theorem for the owner of \<open>alice\<close>, stored by an insert of the slug \<open>Alice\<close>, who
  changes the title.
\<close>

theorem update_same_slug_unchanged_witness:
  "example_card 1 1 (Some ''alice'') (Some ''Alice'')
     \<in> set (run_writes [Insert_row 0 (example_card 1 1 (Some ''Alice'') (Some ''Alice''))])
   \<and> slug (example_card 1 1 (Some ''alice'') (Some ''Alice A.''))
       = slug (example_card 1 1 (Some ''alice'') (Some ''Alice''))
   \<and> set_card_slug 0
        (run_writes [Insert_row 0 (example_card 1 1 (Some ''Alice'') (Some ''Alice''))])
        UPDATE
        (example_card 1 1 (Some ''alice'') (Some ''Alice''))
        (example_card 1 1 (Some ''alice'') (Some ''Alice A.''))
       = Inr (example_card 1 1 (Some ''alice'') (Some ''Alice A.''))"
proof -
  have m: "example_card 1 1 (Some ''alice'') (Some ''Alice'')
     \<in> set (run_writes [Insert_row 0 (example_card 1 1 (Some ''Alice'') (Some ''Alice''))])"
    by (simp only: example_insert) simp
  have e: "slug (example_card 1 1 (Some ''alice'') (Some ''Alice A.''))
       = slug (example_card 1 1 (Some ''alice'') (Some ''Alice''))"
    by (simp add: example_card_def)
  from update_same_slug_unchanged [OF m e] m e show ?thesis by simp
qed

text \<open>
  Claim C6. For every \<open>UPDATE\<close> of a stored row whose new slug equals the stored one, the
  trigger leaves the slug as it is, whatever slugs the rows of the snapshot hold; and on
  every insert and update the row the trigger returns differs from \<open>NEW\<close> in the slug
  at most.
\<close>

theorem trigger_changes_slug_only:
  "(OLD \<in> set (run_writes ws) \<and> slug NEW = slug OLD
      \<longrightarrow> set_card_slug rnd snapshot UPDATE OLD NEW = Inr NEW)
   \<and> (set_card_slug rnd snapshot TG_OP OLD NEW = Inr written
      \<longrightarrow> written = NEW\<lparr>slug := slug written\<rparr>)"
proof (intro conjI impI)
  assume "OLD \<in> set (run_writes ws) \<and> slug NEW = slug OLD"
  then show "set_card_slug rnd snapshot UPDATE OLD NEW = Inr NEW"
    by (blast intro: set_card_slug_stored)
next
  assume "set_card_slug rnd snapshot TG_OP OLD NEW = Inr written"
  then show "written = NEW\<lparr>slug := slug written\<rparr>"
    unfolding set_card_slug_def Let_def
    by (auto split: option.splits if_splits dest: assign_slug_frame)
qed

text \<open>
  The theorem for an update of the phone number, on a snapshot where another row holds
  the same slug.
\<close>

theorem trigger_changes_slug_only_witness:
  "example_card 1 1 (Some ''alice'') (Some ''Alice'')
     \<in> set (run_writes [Insert_row 0 (example_card 1 1 (Some ''Alice'') (Some ''Alice''))])
   \<and> slug ((example_card 1 1 (Some ''alice'') (Some ''Alice''))\<lparr>phone := Some ''555''\<rparr>)
       = slug (example_card 1 1 (Some ''alice'') (Some ''Alice''))
   \<and> set_card_slug 0
        [example_card 1 1 (Some ''alice'') (Some ''Alice''), example_card 2 2 (Some ''alice'') None]
        UPDATE
        (example_card 1 1 (Some ''alice'') (Some ''Alice''))
        ((example_card 1 1 (Some ''alice'') (Some ''Alice''))\<lparr>phone := Some ''555''\<rparr>)
       = Inr ((example_card 1 1 (Some ''alice'') (Some ''Alice''))\<lparr>phone := Some ''555''\<rparr>)"
proof -
  let ?old = "example_card 1 1 (Some ''alice'') (Some ''Alice'')"
  let ?new = "?old\<lparr>phone := Some ''555''\<rparr>"
  let ?snap = "[example_card 1 1 (Some ''alice'') (Some ''Alice''), example_card 2 2 (Some ''alice'') None]"
  have m: "?old \<in> set (run_writes [Insert_row 0 (example_card 1 1 (Some ''Alice'') (Some ''Alice''))])"
    by (simp only: example_insert) simp
  have e: "slug ?new = slug ?old" by simp
  from trigger_changes_slug_only
    [of ?old "[Insert_row 0 (example_card 1 1 (Some ''Alice'') (Some ''Alice''))]" ?new 0 ?snap]
  have "?old \<in> set (run_writes [Insert_row 0 (example_card 1 1 (Some ''Alice'') (Some ''Alice''))])
      \<and> slug ?new = slug ?old
      \<longrightarrow> set_card_slug 0 ?snap UPDATE ?old ?new = Inr ?new"
    by (rule conjunct1)
  with m e have "set_card_slug 0 ?snap UPDATE ?old ?new = Inr ?new" by blast
  with m e show ?thesis by blast
qed

section \<open>Normalisation is idempotent\<close>

lemma regexp_replace_head:
  "xs = [] \<or> is_alnum (hd xs) \<Longrightarrow> regexp_replace xs = [] \<or> is_alnum (hd (regexp_replace xs))"
  by (cases xs) auto

lemma dropWhile_head: "dropWhile P cs = [] \<or> \<not> P (hd (dropWhile P cs))"
  using hd_dropWhile [of P cs] by blast

lemma separated_regexp_replace: "separated (regexp_replace s)"
proof (induction s rule: regexp_replace.induct)
  case 1
  show ?case by simp
next
  case (2 c cs)
  show ?case
  proof (cases "is_alnum c")
    case True
    with 2 show ?thesis by simp
  next
    case False
    let ?d = "dropWhile (\<lambda>d. \<not> is_alnum d) cs"
    have ih: "separated (regexp_replace ?d)" using 2 False by simp
    have "regexp_replace ?d = [] \<or> is_alnum (hd (regexp_replace ?d))"
      using dropWhile_head [of "\<lambda>d. \<not> is_alnum d" cs] by (intro regexp_replace_head) blast
    with ih False show ?thesis by simp
  qed
qed

lemma regexp_replace_separated: "separated t \<Longrightarrow> regexp_replace t = t"
proof (induction t)
  case Nil
  show ?case by simp
next
  case (Cons c cs)
  show ?case
  proof (cases "is_alnum c")
    case True
    with Cons show ?thesis by simp
  next
    case False
    with Cons.prems have c: "c = CHR ''-''" and h: "cs = [] \<or> is_alnum (hd cs)" by auto
    from h have dw: "dropWhile (\<lambda>d. \<not> is_alnum d) cs = cs" by (cases cs) auto
    have "regexp_replace (c # cs) = CHR ''-'' # regexp_replace (dropWhile (\<lambda>d. \<not> is_alnum d) cs)"
      using False by simp
    also have "\<dots> = CHR ''-'' # regexp_replace cs" by (simp only: dw)
    finally show ?thesis using Cons c by simp
  qed
qed

lemma lower_char_cases:
  "is_alnum c \<Longrightarrow> is_alnum (lower_char c) \<and> is_slug_char (lower_char c) \<and> lower_char c \<noteq> CHR ''-''"
proof -
  assume a: "is_alnum c"
  let ?n = "of_char c :: nat"
  show ?thesis
  proof (cases "65 \<le> ?n \<and> ?n \<le> 90")
    case True
    then have "lower_char c = char_of (?n + 32)" by (simp add: lower_char_def Let_def)
    moreover have "(of_char (char_of (?n + 32) :: char) :: nat) = ?n + 32"
      using True by simp
    ultimately have n: "(of_char (lower_char c) :: nat) = ?n + 32" by simp
    have "lower_char c \<noteq> CHR ''-''"
    proof
      assume "lower_char c = CHR ''-''"
      then have "(of_char (lower_char c) :: nat) = of_char CHR ''-''" by simp
      with n True show False by simp
    qed
    with n True show ?thesis
      by (simp add: is_alnum_def is_slug_char_def Let_def)
  next
    case False
    then have "lower_char c = c" by (auto simp: lower_char_def Let_def)
    with a False show ?thesis
      by (auto simp: is_alnum_def is_slug_char_def Let_def)
  qed
qed

lemma lower_char_hyphen: "lower_char CHR ''-'' = CHR ''-''"
  by (simp add: lower_char_def)

lemma lower_char_slug_char: "is_slug_char c \<Longrightarrow> lower_char c = c"
  by (auto simp: is_slug_char_def lower_char_def Let_def)

lemma separated_lower:
  "separated t \<Longrightarrow> separated (lower t) \<and> list_all is_slug_char (lower t)"
proof (induction t)
  case Nil
  show ?case by (simp add: lower_def)
next
  case (Cons c cs)
  then have ih: "separated (lower cs)" "list_all is_slug_char (lower cs)" by simp_all
  show ?case
  proof (cases "is_alnum c")
    case True
    with ih lower_char_cases [OF True] show ?thesis by (simp add: lower_def)
  next
    case False
    with Cons.prems have c: "c = CHR ''-''" and h: "cs = [] \<or> is_alnum (hd cs)" by auto
    from h have "lower cs = [] \<or> is_alnum (hd (lower cs))"
      using lower_char_cases [of "hd cs"] by (cases cs) (auto simp: lower_def)
    moreover have "is_slug_char CHR ''-''" by (simp add: is_slug_char_def)
    ultimately show ?thesis using ih c
      by (simp add: lower_def lower_char_hyphen)
  qed
qed

lemma separated_append: "separated (xs @ ys) \<Longrightarrow> separated xs \<and> separated ys"
proof (induction xs)
  case Nil
  then show ?case by simp
next
  case (Cons c cs)
  then show ?case by (cases cs) auto
qed

lemma trim_both_decomp:
  "\<exists>p q. s = p @ trim_both x s @ q"
proof -
  let ?P = "\<lambda>c. c = x"
  let ?y = "dropWhile ?P s"
  have "rev (takeWhile ?P (rev ?y) @ dropWhile ?P (rev ?y))
      = rev (dropWhile ?P (rev ?y)) @ rev (takeWhile ?P (rev ?y))"
    by (rule rev_append)
  then have y: "?y = trim_both x s @ rev (takeWhile ?P (rev ?y))"
    by (simp only: takeWhile_dropWhile_id rev_rev_ident trim_both_def)
  have "s = takeWhile ?P s @ ?y" by simp
  with y have "s = takeWhile ?P s @ trim_both x s @ rev (takeWhile ?P (rev ?y))" by simp
  then show ?thesis by blast
qed

lemma separated_trim_both: "separated s \<Longrightarrow> separated (trim_both x s)"
proof -
  assume s: "separated s"
  obtain p q where "s = p @ trim_both x s @ q" using trim_both_decomp by blast
  with s have "separated (p @ trim_both x s @ q)" by simp
  then show ?thesis using separated_append by blast
qed

lemma slug_chars_trim_both:
  assumes "list_all is_slug_char s"
  shows "list_all is_slug_char (trim_both x s)"
proof -
  obtain p q where "s = p @ trim_both x s @ q" using trim_both_decomp by blast
  with assms have "list_all is_slug_char (p @ trim_both x s @ q)" by simp
  then show ?thesis by simp
qed

lemma dropWhile_last:
  assumes "dropWhile P xs \<noteq> []"
  shows "last (dropWhile P xs) = last xs"
proof -
  have "xs = takeWhile P xs @ dropWhile P xs" by simp
  then have "last xs = last (takeWhile P xs @ dropWhile P xs)" by simp
  also have "\<dots> = last (dropWhile P xs)" using assms by (rule last_appendR)
  finally show ?thesis by simp
qed

lemma trim_both_ends:
  "trim_both x s = [] \<or> (hd (trim_both x s) \<noteq> x \<and> last (trim_both x s) \<noteq> x)"
proof (cases "trim_both x s = []")
  case True
  then show ?thesis by simp
next
  case False
  let ?P = "\<lambda>c. c = x"
  let ?y = "dropWhile ?P s"
  let ?z = "dropWhile ?P (rev ?y)"
  have t: "trim_both x s = rev ?z" by (simp add: trim_both_def)
  with False have z: "?z \<noteq> []" by simp
  have y: "?y \<noteq> []"
  proof
    assume "?y = []"
    then have "?z = []" by (simp only: rev.simps dropWhile.simps)
    with z show False ..
  qed
  have "hd ?z \<noteq> x" using dropWhile_head [of ?P "rev ?y"] z by blast
  then have l: "last (rev ?z) \<noteq> x" using z by (simp add: last_rev)
  have "last ?z = last (rev ?y)" using z by (rule dropWhile_last)
  also have "\<dots> = hd ?y" using y by (simp add: last_rev)
  finally have "hd (rev ?z) = hd ?y" using z by (simp add: hd_rev)
  moreover have "hd ?y \<noteq> x" using dropWhile_head [of ?P s] y by blast
  ultimately show ?thesis using l unfolding t by simp
qed

lemma trim_both_fixed:
  assumes "s = [] \<or> (hd s \<noteq> x \<and> last s \<noteq> x)"
  shows "trim_both x s = s"
proof (cases s)
  case Nil
  then show ?thesis by (simp add: trim_both_def)
next
  case (Cons c cs)
  with assms have h: "hd s \<noteq> x" and l: "last s \<noteq> x" by auto
  from h Cons have d: "dropWhile (\<lambda>c. c = x) s = s" by simp
  have "rev s \<noteq> []" using Cons by simp
  moreover have "hd (rev s) \<noteq> x" using l by (simp add: hd_rev)
  ultimately
  have "dropWhile (\<lambda>c. c = x) (rev s) = rev s" by (cases "rev s") auto
  with d show ?thesis by (simp add: trim_both_def)
qed

lemma normalise_shape:
  "separated (normalise s) \<and> list_all is_slug_char (normalise s)
   \<and> (normalise s = [] \<or> (hd (normalise s) \<noteq> CHR ''-'' \<and> last (normalise s) \<noteq> CHR ''-''))"
  unfolding normalise_def
  using separated_lower [OF separated_regexp_replace, of s]
  by (simp add: separated_trim_both slug_chars_trim_both trim_both_ends)

text \<open>
  Claim C8. Normalisation (replace every maximal run of characters outside
  \<open>[a-zA-Z0-9]\<close> by one hyphen, lower-case, strip leading and trailing hyphens) is
  idempotent: for every input text, normalising the normalised text gives the same string.
\<close>

theorem normalise_idempotent: "normalise (normalise s) = normalise s"
proof -
  let ?n = "normalise s"
  from normalise_shape [of s]
  have sep: "separated ?n" and ch: "list_all is_slug_char ?n"
    and ends: "?n = [] \<or> (hd ?n \<noteq> CHR ''-'' \<and> last ?n \<noteq> CHR ''-'')"
    by simp_all
  have r: "regexp_replace ?n = ?n" using sep by (rule regexp_replace_separated)
  have l: "lower ?n = ?n"
    unfolding lower_def using ch by (intro map_idI) (simp add: list_all_iff lower_char_slug_char)
  have t: "trim_both CHR ''-'' ?n = ?n" using ends by (rule trim_both_fixed)
  have "normalise ?n = trim_both CHR ''-'' (lower (regexp_replace ?n))"
    by (simp add: normalise_def)
  also have "\<dots> = ?n" by (simp only: r l t)
  finally show ?thesis .
qed

section \<open>The public card page reads published cards and counts views\<close>

lemma single_Inr_iff: "single rows = Inr r \<longleftrightarrow> rows = [r]"
  by (auto simp: single_def split: list.splits)

lemma single_Nil: "single [] = Inl PGRST116"
  by (simp add: single_def)

text \<open>
  Claim C9. For every requested slug (the route parameter, not empty): when no row has
  that slug and \<open>is_published = true\<close>, the load ends with the error
  \<open>Card not found or not published\<close> and sets no card data; when the published rows with
  that slug are one row, that row is the card of the data that is set; and a card that the
  load sets is always a published row with that slug.
\<close>

theorem loadCardData_published_only:
  assumes "cid \<noteq> []"
  shows "(\<not> (\<exists>r \<in> set (business_cards db). slug r = Some cid \<and> is_published r = Some True)
          \<longrightarrow> loadCardData db (Some cid) st
                = st\<lparr>loading := False, error := Some ''Card not found or not published''\<rparr>)
    \<and> (\<forall>r. filter (\<lambda>r. slug r = Some cid \<and> is_published r = Some True) (business_cards db) = [r]
          \<longrightarrow> (\<exists>d. cardData (loadCardData db (Some cid) st) = Some d \<and> card_field d = r)
              \<and> error (loadCardData db (Some cid) st) = error st)
    \<and> (\<forall>d. cardData (loadCardData db (Some cid) st) = Some d \<and> cardData st \<noteq> Some d
          \<longrightarrow> card_field d \<in> set (business_cards db) \<and> slug (card_field d) = Some cid
              \<and> is_published (card_field d) = Some True)"
proof -
  let ?rows = "filter (\<lambda>r. slug r = Some cid \<and> is_published r = Some True) (business_cards db)"
  have none: "loadCardData db (Some cid) st
      = st\<lparr>loading := False, error := Some ''Card not found or not published''\<rparr>"
    if "\<not> (\<exists>r \<in> set (business_cards db). slug r = Some cid \<and> is_published r = Some True)"
  proof -
    from that have "?rows = []" by (simp add: filter_empty_conv)
    with assms show ?thesis by (simp add: loadCardData_def single_Nil)
  qed
  have one: "(\<exists>d. cardData (loadCardData db (Some cid) st) = Some d \<and> card_field d = r)
      \<and> error (loadCardData db (Some cid) st) = error st"
    if "?rows = [r]" for r
    using that assms by (simp add: loadCardData_def single_def)
  have only: "card_field d \<in> set (business_cards db) \<and> slug (card_field d) = Some cid
      \<and> is_published (card_field d) = Some True"
    if a: "cardData (loadCardData db (Some cid) st) = Some d \<and> cardData st \<noteq> Some d" for d
  proof (cases "single ?rows")
    case (Inl e)
    with assms a show ?thesis by (simp add: loadCardData_def)
  next
    case (Inr c)
    then have "?rows = [c]" by (simp add: single_Inr_iff)
    then have "c \<in> set ?rows" by simp
    then have c: "c \<in> set (business_cards db)" "slug c = Some cid" "is_published c = Some True"
      by simp_all
    from Inr assms a have "card_field d = c" by (auto simp: loadCardData_def)
    with c show ?thesis by simp
  qed
  from none one only show ?thesis by blast
qed

text \<open>
  The theorem on a database where \<open>alice\<close> is published and \<open>bob\<close> is not.
\<close>

theorem loadCardData_published_only_witness:
  "''bob'' \<noteq> []
   \<and> loadCardData example_db (Some ''bob'') initial_state
       = \<lparr>cardData = None, loading = False, error = Some ''Card not found or not published''\<rparr>
   \<and> loadCardData example_db (Some ''alice'') initial_state
       = \<lparr>cardData = Some \<lparr>card_field = example_card 1 1 (Some ''alice'') (Some ''Alice''),
                            socialLinks = [], mediaItems = [], reviews = []\<rparr>,
          loading = False, error = None\<rparr>"
proof -
  have ne: "''bob'' \<noteq> []" by simp
  have nb: "\<not> (\<exists>r \<in> set (business_cards example_db).
      slug r = Some ''bob'' \<and> is_published r = Some True)"
    by (simp add: example_db_def example_card_def)
  from loadCardData_published_only [OF ne, of example_db initial_state] nb
  have "loadCardData example_db (Some ''bob'') initial_state
      = initial_state\<lparr>loading := False, error := Some ''Card not found or not published''\<rparr>"
    by blast
  moreover have "loadCardData example_db (Some ''alice'') initial_state
       = \<lparr>cardData = Some \<lparr>card_field = example_card 1 1 (Some ''alice'') (Some ''Alice''),
                            socialLinks = [], mediaItems = [], reviews = []\<rparr>,
          loading = False, error = None\<rparr>"
    by (simp add: loadCardData_def example_db_def initial_state_def single_def example_card_def)
  ultimately show ?thesis by (simp add: initial_state_def)
qed

lemma filter_map_view_count:
  "filter (\<lambda>r. slug r = Some cid \<and> is_published r = Some True)
     (map (\<lambda>x. if row_id x = i then x\<lparr>view_count := v\<rparr> else x) rows)
   = map (\<lambda>x. if row_id x = i then x\<lparr>view_count := v\<rparr> else x)
       (filter (\<lambda>r. slug r = Some cid \<and> is_published r = Some True) rows)"
  by (induction rows) auto

lemma trackCardView_rows:
  assumes "cid \<noteq> []"
    and "filter (\<lambda>r. slug r = Some cid \<and> is_published r = Some True) (business_cards db) = [r]"
  shows "business_cards (trackCardView db (Some cid) ua ref)
    = map (\<lambda>x. if row_id x = row_id r then x\<lparr>view_count := Some 1\<rparr> else x) (business_cards db)"
  using assms
  by (simp add: trackCardView_def single_def select_columns_def js_or_def)

text \<open>
  Claim C10. For every invocation of \<open>trackCardView\<close> that finds the published card, the
  \<open>view_count\<close> written to the card is 1, whatever count was stored: the query selects
  \<open>id\<close> only, so \<open>(card.view_count || 0) + 1\<close> is 1. A second view writes the same
  rows again; the count does not grow.
\<close>

theorem trackCardView_writes_one:
  assumes "cid \<noteq> []"
    and "filter (\<lambda>r. slug r = Some cid \<and> is_published r = Some True) (business_cards db) = [r]"
  shows "business_cards (trackCardView db (Some cid) ua ref)
      = map (\<lambda>x. if row_id x = row_id r then x\<lparr>view_count := Some 1\<rparr> else x) (business_cards db)
    \<and> business_cards (trackCardView (trackCardView db (Some cid) ua ref) (Some cid) ua' ref')
      = business_cards (trackCardView db (Some cid) ua ref)"
proof -
  let ?g = "\<lambda>x. if row_id x = row_id r then x\<lparr>view_count := Some 1\<rparr> else x"
  let ?db = "trackCardView db (Some cid) ua ref"
  have first: "business_cards ?db = map ?g (business_cards db)"
    using assms by (rule trackCardView_rows)
  have "filter (\<lambda>r. slug r = Some cid \<and> is_published r = Some True) (business_cards ?db)
      = map ?g [r]"
    unfolding first filter_map_view_count assms(2) ..
  then have "filter (\<lambda>r. slug r = Some cid \<and> is_published r = Some True) (business_cards ?db)
      = [r\<lparr>view_count := Some 1\<rparr>]"
    by simp
  from trackCardView_rows [OF assms(1) this, of ua' ref']
  have "business_cards (trackCardView ?db (Some cid) ua' ref') = map ?g (business_cards ?db)"
    by simp
  also have "\<dots> = business_cards ?db"
    unfolding first by (induction "business_cards db") auto
  finally show ?thesis using first by simp
qed

text \<open>
  The theorem on a card with 41 stored views.
\<close>

theorem trackCardView_writes_one_witness:
  "''alice'' \<noteq> []
   \<and> filter (\<lambda>r. slug r = Some ''alice'' \<and> is_published r = Some True) (business_cards example_db)
       = [example_card 1 1 (Some ''alice'') (Some ''Alice'')]
   \<and> view_count (example_card 1 1 (Some ''alice'') (Some ''Alice'')) = Some 41
   \<and> map view_count (business_cards (trackCardView example_db (Some ''alice'') ''Mozilla/5.0'' []))
       = [Some 1, Some 41]"
proof -
  have ne: "''alice'' \<noteq> []" by simp
  have f: "filter (\<lambda>r. slug r = Some ''alice'' \<and> is_published r = Some True)
      (business_cards example_db) = [example_card 1 1 (Some ''alice'') (Some ''Alice'')]"
    by (simp add: example_db_def example_card_def)
  have v: "view_count (example_card 1 1 (Some ''alice'') (Some ''Alice'')) = Some 41"
    by (simp add: example_card_def)
  from trackCardView_writes_one [OF ne f, of "''Mozilla/5.0''" "[]"]
  have "business_cards (trackCardView example_db (Some ''alice'') ''Mozilla/5.0'' [])
      = map (\<lambda>x. if row_id x = row_id (example_card 1 1 (Some ''alice'') (Some ''Alice''))
                  then x\<lparr>view_count := Some 1\<rparr> else x) (business_cards example_db)"
    by (rule conjunct1)
  then have "map view_count (business_cards (trackCardView example_db (Some ''alice'') ''Mozilla/5.0'' []))
      = [Some 1, Some 41]"
    by (simp add: example_db_def example_card_def)
  with ne f v show ?thesis by simp
qed

end
